theory Spec2Isabelle
  imports Complex_Main "HOL-Library.Multiset" "HOL-Library.Log_Nat" "HOL-Library.Code_Target_Nat"
begin

section \<open>JavaScript values of the metrics engine\<close>

text \<open>
  The engine of \<^verbatim>\<open>generate.mjs\<close> computes on the numbers of a parsed JSON document.
  A field of a parsed object is either absent (reading it gives \<^verbatim>\<open>undefined\<close>) or a
  number; arithmetic on \<^verbatim>\<open>undefined\<close> gives \<^verbatim>\<open>NaN\<close>. A number is a double, modelled
  by the rational it denotes. The sums of token counts, the comparator that ranks the
  models and the quotient and product of the percentage are rounded to the nearest
  double, as the code rounds them (\<open>fl\<close> below). The counts of the day records and
  the cost estimate are kept as exact values. \<^verbatim>\<open>Infinity\<close> is not modelled: a result of
  magnitude \<open>2^1024\<close> or more lies outside the model.
\<close>

datatype jsval = Undefined | Num (the_num: rat) | NaN

text \<open>Truthiness, as tested by \<^verbatim>\<open>||\<close> and \<^verbatim>\<open>? :\<close>: \<^verbatim>\<open>undefined\<close>, \<^verbatim>\<open>NaN\<close> and \<^verbatim>\<open>0\<close> are falsy.\<close>

fun truthy :: "jsval \<Rightarrow> bool" where
  "truthy (Num r) = (r \<noteq> 0)"
| "truthy Undefined = False"
| "truthy NaN = False"

text \<open>\<^verbatim>\<open>a || b\<close>; the right operand is only evaluated when the left one is falsy.\<close>

definition js_or :: "jsval \<Rightarrow> jsval \<Rightarrow> jsval" where
  "js_or a b = (if truthy a then a else b)"

text \<open>The idiom \<^verbatim>\<open>(x || 0)\<close>, whose value is always a number.\<close>

fun or_zero :: "jsval \<Rightarrow> rat" where
  "or_zero (Num r) = r"
| "or_zero Undefined = 0"
| "or_zero NaN = 0"

text \<open>\<^verbatim>\<open>a + b\<close> and \<^verbatim>\<open>a - b\<close> on numbers: \<^verbatim>\<open>undefined\<close> converts to \<^verbatim>\<open>NaN\<close>, which propagates.\<close>

fun js_add :: "jsval \<Rightarrow> jsval \<Rightarrow> jsval" where
  "js_add (Num a) (Num b) = Num (a + b)"
| "js_add _ _ = NaN"

fun js_sub :: "jsval \<Rightarrow> jsval \<Rightarrow> jsval" where
  "js_sub (Num a) (Num b) = Num (a - b)"
| "js_sub _ _ = NaN"

text \<open>\<^verbatim>\<open>a > b\<close>: false as soon as one side is \<^verbatim>\<open>undefined\<close> or \<^verbatim>\<open>NaN\<close>.\<close>

fun js_gt :: "jsval \<Rightarrow> jsval \<Rightarrow> bool" where
  "js_gt (Num a) (Num b) = (b < a)"
| "js_gt _ _ = False"

text \<open>
  \<^verbatim>\<open>Math.max(...vals, c)\<close> for a numeric literal \<open>c\<close>: every argument is converted to
  a number, one \<^verbatim>\<open>NaN\<close> makes the result \<^verbatim>\<open>NaN\<close>, otherwise the largest is returned.
\<close>

fun max2 :: "jsval \<Rightarrow> jsval \<Rightarrow> jsval" where
  "max2 (Num a) (Num b) = Num (max a b)"
| "max2 _ _ = NaN"

definition Math_max :: "jsval list \<Rightarrow> rat \<Rightarrow> jsval" where
  "Math_max vals c = foldr max2 vals (Num c)"

subsection \<open>Rounding to the nearest double\<close>

text \<open>
  A double has 53 significant bits. \<open>exponent2 x\<close> is the binary exponent of a nonzero
  \<open>x\<close>, the \<open>e\<close> with \<open>2^e \<le> \<bar>x\<bar> < 2^(e + 1)\<close>; doubles with exponent \<open>e\<close> are
  the multiples of \<open>2^(e - 52)\<close>, and below \<open>2^(-1022)\<close> the multiples of
  \<open>2^(-1074)\<close>. \<open>fl x\<close> is the multiple nearest to \<open>x\<close>, the one with the even
  multiplier when two are equally near.
\<close>

definition round_even :: "rat \<Rightarrow> int" where
  "round_even y =
     (let f = \<lfloor>y\<rfloor>; d = y - of_int f
      in if d < 1 / 2 then f else if 1 / 2 < d then f + 1 else if even f then f else f + 1)"

definition ilog2 :: "rat \<Rightarrow> int" where
  "ilog2 y = bitlen \<lfloor>y\<rfloor> - 1"

definition exponent2 :: "rat \<Rightarrow> int" where
  "exponent2 x =
     (let a = \<bar>x\<bar>
      in if 1 \<le> a then ilog2 a
         else let e = ilog2 (1 / a) in if a = 2 powi (- e) then - e else - e - 1)"

definition fl :: "rat \<Rightarrow> rat" where
  "fl x =
     (if x = 0 then 0
      else let e = max (exponent2 x) (- 1022); u = 2 powi (e - 52)
           in of_int (round_even (x / u)) * u)"

subsection \<open>\<^verbatim>\<open>Array.prototype.sort\<close> with a comparator\<close>

text \<open>
  The comparator's result is converted to a number and \<^verbatim>\<open>NaN\<close> counts as \<open>0\<close>; a
  negative result puts the first argument first, and \<open>0\<close> keeps the two elements in
  their order: the sort is stable. For a consistent comparator (one that compares by a
  key, or one that is \<open>0\<close> on every pair) every stable sort returns the same array, so
  it is modelled by insertion from the right end. For an inconsistent comparator
  ECMAScript leaves the order to the implementation, and nothing is proved about that
  case.
\<close>

fun cmp_result :: "jsval \<Rightarrow> rat" where
  "cmp_result (Num r) = r"
| "cmp_result Undefined = 0"
| "cmp_result NaN = 0"

fun insert_cmp :: "('a \<Rightarrow> 'a \<Rightarrow> jsval) \<Rightarrow> 'a \<Rightarrow> 'a list \<Rightarrow> 'a list" where
  "insert_cmp cmp x [] = [x]"
| "insert_cmp cmp x (y # ys) =
     (if cmp_result (cmp x y) \<le> 0 then x # y # ys else y # insert_cmp cmp x ys)"

definition js_sort :: "('a \<Rightarrow> 'a \<Rightarrow> jsval) \<Rightarrow> 'a list \<Rightarrow> 'a list" where
  "js_sort cmp xs = foldr (insert_cmp cmp) xs []"

section \<open>The usage snapshot\<close>

text \<open>
  \<^verbatim>\<open>stats = JSON.parse(readFileSync(STATS_FILE))\<close>. \<open>stats_modelUsage\<close> is
  \<^verbatim>\<open>Object.entries(stats.modelUsage)\<close>, the entries in the object's iteration order;
  the engine needs the field to be an object. \<^verbatim>\<open>dailyActivity\<close> and \<^verbatim>\<open>hourCounts\<close>
  may be absent (\<open>None\<close>); the values of \<^verbatim>\<open>hourCounts\<close> are numbers.
\<close>

record TokenCounts =
  inputTokens :: jsval
  outputTokens :: jsval
  cacheReadInputTokens :: jsval
  cacheCreationInputTokens :: jsval

record DayRecord =
  date :: string
  messageCount :: jsval
  sessionCount :: jsval
  toolCallCount :: jsval

record UsageSnapshot =
  stats_modelUsage :: "(string \<times> TokenCounts) list"
  stats_dailyActivity :: "DayRecord list option"
  stats_hourCounts :: "(string \<times> rat) list option"
  stats_totalSessions :: jsval
  stats_totalMessages :: jsval

text \<open>
  An entry of \<^verbatim>\<open>models\<close>: \<^verbatim>\<open>{ id, ...u, total }\<close>. The spread keeps the fields of \<open>u\<close>
  as they are, an absent field stays absent; \<^verbatim>\<open>total\<close> is the sum of doubles
  \<^verbatim>\<open>(u.inputTokens || 0) + (u.outputTokens || 0) + (u.cacheReadInputTokens || 0) +
  (u.cacheCreationInputTokens || 0)\<close>, added from the left and rounded after each
  addition.
\<close>

record ModelAggregate = TokenCounts +
  m_id :: string
  m_total :: rat

section \<open>Computed metrics\<close>

definition aggregate :: "string \<times> TokenCounts \<Rightarrow> ModelAggregate" where
  "aggregate e =
     (case e of (k, u) \<Rightarrow>
        let total = fl (fl (fl (or_zero (inputTokens u) + or_zero (outputTokens u)) +
                            or_zero (cacheReadInputTokens u)) +
                        or_zero (cacheCreationInputTokens u))
        in \<lparr> inputTokens = inputTokens u, outputTokens = outputTokens u,
             cacheReadInputTokens = cacheReadInputTokens u,
             cacheCreationInputTokens = cacheCreationInputTokens u,
             m_id = k, m_total = total \<rparr>)"

definition models :: "UsageSnapshot \<Rightarrow> ModelAggregate list" where
  "models stats =
     js_sort (\<lambda>a b. Num (fl (m_total b - m_total a))) (map aggregate (stats_modelUsage stats))"

definition totalTokens :: "UsageSnapshot \<Rightarrow> rat" where
  "totalTokens stats = foldl (\<lambda>s m. fl (s + m_total m)) 0 (models stats)"

definition totalInput :: "UsageSnapshot \<Rightarrow> rat" where
  "totalInput stats = foldl (\<lambda>s m. fl (s + or_zero (inputTokens m))) 0 (models stats)"

definition totalOutput :: "UsageSnapshot \<Rightarrow> rat" where
  "totalOutput stats = foldl (\<lambda>s m. fl (s + or_zero (outputTokens m))) 0 (models stats)"

definition totalCacheRead :: "UsageSnapshot \<Rightarrow> rat" where
  "totalCacheRead stats =
     foldl (\<lambda>s m. fl (s + or_zero (cacheReadInputTokens m))) 0 (models stats)"

definition totalCacheCreate :: "UsageSnapshot \<Rightarrow> rat" where
  "totalCacheCreate stats =
     foldl (\<lambda>s m. fl (s + or_zero (cacheCreationInputTokens m))) 0 (models stats)"

text \<open>
  \<^verbatim>\<open>(totalInput * 15 + totalOutput * 75 + totalCacheRead * 1.5 + totalCacheCreate * 3.75) / 1_000_000\<close>
\<close>

definition costEstimate :: "UsageSnapshot \<Rightarrow> rat" where
  "costEstimate stats =
     (totalInput stats * 15 + totalOutput stats * 75 + totalCacheRead stats * (3 / 2) +
      totalCacheCreate stats * (15 / 4)) / 1000000"

definition daily :: "UsageSnapshot \<Rightarrow> DayRecord list" where
  "daily stats = (case stats_dailyActivity stats of None \<Rightarrow> [] | Some ds \<Rightarrow> ds)"

definition totalMessages :: "UsageSnapshot \<Rightarrow> jsval" where
  "totalMessages stats =
     js_or (stats_totalMessages stats)
       (foldl (\<lambda>s d. js_add s (messageCount d)) (Num 0) (daily stats))"

definition totalSessions :: "UsageSnapshot \<Rightarrow> jsval" where
  "totalSessions stats =
     js_or (stats_totalSessions stats)
       (foldl (\<lambda>s d. js_add s (sessionCount d)) (Num 0) (daily stats))"

definition totalToolCalls :: "UsageSnapshot \<Rightarrow> rat" where
  "totalToolCalls stats = foldl (\<lambda>s d. s + or_zero (toolCallCount d)) 0 (daily stats)"

text \<open>
  \<^verbatim>\<open>daily.reduce((max, d) => d.messageCount > max.messageCount ? d : max,
                  daily[0] || { date: 'N/A', messageCount: 0 })\<close>
\<close>

definition sentinel :: DayRecord where
  "sentinel = \<lparr> date = ''N/A'', messageCount = Num 0, sessionCount = Undefined,
                toolCallCount = Undefined \<rparr>"

definition peak_step :: "DayRecord \<Rightarrow> DayRecord \<Rightarrow> DayRecord" where
  "peak_step mx d = (if js_gt (messageCount d) (messageCount mx) then d else mx)"

definition peakDay :: "UsageSnapshot \<Rightarrow> DayRecord" where
  "peakDay stats =
     foldl peak_step (case daily stats of [] \<Rightarrow> sentinel | d0 # _ \<Rightarrow> d0) (daily stats)"

text \<open>\<^verbatim>\<open>[...daily].sort((a, b) => b.messageCount - a.messageCount).slice(0, 5)\<close>\<close>

definition topDays :: "UsageSnapshot \<Rightarrow> DayRecord list" where
  "topDays stats =
     take 5 (js_sort (\<lambda>a b. js_sub (messageCount b) (messageCount a)) (daily stats))"

definition hourCounts :: "UsageSnapshot \<Rightarrow> (string \<times> rat) list" where
  "hourCounts stats = (case stats_hourCounts stats of None \<Rightarrow> [] | Some h \<Rightarrow> h)"

definition maxHourCount :: "UsageSnapshot \<Rightarrow> jsval" where
  "maxHourCount stats = Math_max (map (\<lambda>e. Num (snd e)) (hourCounts stats)) 1"

definition maxDailyMsg :: "UsageSnapshot \<Rightarrow> jsval" where
  "maxDailyMsg stats = Math_max (map messageCount (daily stats)) 1"

section \<open>Formatting\<close>

text \<open>The decimal digits of a natural number, as \<^verbatim>\<open>Number.prototype.toFixed\<close> writes them.\<close>

definition digit_char :: "nat \<Rightarrow> char" where
  "digit_char d = ''0123456789'' ! (d mod 10)"

function show_nat :: "nat \<Rightarrow> string" where
  "show_nat n = (if n < 10 then [digit_char n] else show_nat (n div 10) @ [digit_char (n mod 10)])"
  by pat_completeness auto
termination
  by (relation "measure id") auto

declare show_nat.simps [simp del]

text \<open>Reading a digit string back, to state what \<open>show_nat\<close> writes.\<close>

definition digit_val :: "char \<Rightarrow> nat" where
  "digit_val c = of_char c - 48"

definition read_nat :: "string \<Rightarrow> nat" where
  "read_nat cs = foldl (\<lambda>a c. 10 * a + digit_val c) 0 cs"

text \<open>
  \<^verbatim>\<open>Number::toString\<close> for a double \<open>v\<close> of at least \<open>10^21\<close>, which is written in
  exponent notation. Its digits are those of the integer \<open>s\<close> with the fewest digits
  such that \<open>s * 10^j\<close> rounds to \<open>v\<close>, and of two such \<open>s\<close> the one nearer to
  \<open>v\<close>. \<open>digits_search v j\<close> tries the powers \<open>10^j\<close> from the largest down, with
  the two multiples of \<open>10^j\<close> next to \<open>v\<close>; at \<open>j = 0\<close> it returns \<open>v\<close> itself,
  which is an integer.
\<close>

fun digits_search :: "rat \<Rightarrow> nat \<Rightarrow> nat \<times> nat" where
  "digits_search v 0 = (nat \<lfloor>v\<rfloor>, 0)"
| "digits_search v (Suc j) =
     (let p = 10 ^ Suc j; lo = nat \<lfloor>v / p\<rfloor>; hi = lo + 1;
          ok_lo = (lo \<noteq> 0 \<and> fl (of_nat lo * p) = v); ok_hi = (fl (of_nat hi * p) = v);
          hi_nearer = (of_nat hi * p - v < v - of_nat lo * p
                       \<or> (of_nat hi * p - v = v - of_nat lo * p \<and> even hi))
      in if ok_lo \<and> ok_hi then (if hi_nearer then (hi, Suc j) else (lo, Suc j))
         else if ok_lo then (lo, Suc j)
         else if ok_hi then (hi, Suc j)
         else digits_search v j)"

definition toString_large :: "rat \<Rightarrow> string" where
  "toString_large v =
     (let n0 = length (show_nat (nat \<lfloor>v\<rfloor>));
          (s, j) = digits_search v (n0 - 1);
          ds = show_nat s;
          e = length ds + j - 1;
          sig = rev (dropWhile (\<lambda>c. c = CHR ''0'') (rev ds))
      in (case sig of
            [] \<Rightarrow> ''0''
          | d # rest \<Rightarrow> (if rest = [] then [d] else d # ''.'' @ rest) @ ''e+'' @ show_nat e))"

text \<open>
  \<^verbatim>\<open>x.toFixed(f)\<close> for a finite number and \<open>f\<close> from 0 to 100 (the engine passes 1
  and 2), after ECMAScript: the sign is split off; from
  \<open>10^21\<close> on the result is that of \<^verbatim>\<open>toString\<close>; otherwise \<open>n\<close> is the integer
  with \<open>n / 10^f\<close> nearest to the exact value of the double \<open>x\<close> (the larger one of
  two), its digits are padded with
  zeros to \<open>f + 1\<close> characters and a point is put before the last \<open>f\<close> of them.
\<close>

definition toFixed :: "nat \<Rightarrow> rat \<Rightarrow> string" where
  "toFixed f x =
     (let s = (if x < 0 then ''-'' else []); a = \<bar>x\<bar>
      in if 10 ^ 21 \<le> a then s @ toString_large a
         else
           let n = nat \<lfloor>a * 10 ^ f + 1 / 2\<rfloor>;
               m = show_nat n;
               m = (if f \<noteq> 0 \<and> length m \<le> f
                    then replicate (f + 1 - length m) (CHR ''0'') @ m else m);
               k = length m
           in if f \<noteq> 0 then s @ take (k - f) m @ ''.'' @ drop (k - f) m else s @ m)"

text \<open>
  \<^verbatim>\<open>function pct(part, whole) { return whole ? ((part / whole) * 100).toFixed(1) : '0'; }\<close>
  Every call passes two of the totals above, which are numbers. The quotient and the
  product are rounded to doubles before \<^verbatim>\<open>toFixed\<close> reads the value.
\<close>

definition pct :: "rat \<Rightarrow> rat \<Rightarrow> string" where
  "pct part whole = (if whole \<noteq> 0 then toFixed 1 (fl (fl (part / whole) * 100)) else ''0'')"

section \<open>Zero defaults, as the specification words them\<close>

text \<open>
  The specification asks that an absent count of a day record behaves as a written
  \<open>0\<close>. \<open>zero_filled\<close> writes the zeros; it is not part of the source and only serves
  to compare the engine on a snapshot and on its zero-filled copy.
\<close>

definition zero_filled :: "DayRecord \<Rightarrow> DayRecord" where
  "zero_filled d =
     d\<lparr> messageCount := Num (or_zero (messageCount d)),
        sessionCount := Num (or_zero (sessionCount d)),
        toolCallCount := Num (or_zero (toolCallCount d)) \<rparr>"

definition with_zero_defaults :: "UsageSnapshot \<Rightarrow> UsageSnapshot" where
  "with_zero_defaults stats =
     stats\<lparr> stats_dailyActivity := map_option (map zero_filled) (stats_dailyActivity stats) \<rparr>"

section \<open>Counts in the safe range, as the specification words them\<close>

text \<open>
  The specification takes a token count to be a non-negative integer and the total of an
  entry to be the sum of its four counters, an absent one counting as \<open>0\<close>; it names
  \<open>2^53\<close> as the bound up to which sums of doubles are those of the integers. These
  predicates are not part of the source; they state that bound.
\<close>

definition is_count :: "rat \<Rightarrow> bool" where
  "is_count r = (0 \<le> r \<and> of_int \<lfloor>r\<rfloor> = r)"

definition entry_sum :: "'a TokenCounts_scheme \<Rightarrow> rat" where
  "entry_sum u =
     or_zero (inputTokens u) + or_zero (outputTokens u) + or_zero (cacheReadInputTokens u) +
     or_zero (cacheCreationInputTokens u)"

definition counts_ok :: "'a TokenCounts_scheme \<Rightarrow> bool" where
  "counts_ok u =
     (is_count (or_zero (inputTokens u)) \<and> is_count (or_zero (outputTokens u)) \<and>
      is_count (or_zero (cacheReadInputTokens u)) \<and>
      is_count (or_zero (cacheCreationInputTokens u)))"

definition safe_entry :: "'a TokenCounts_scheme \<Rightarrow> bool" where
  "safe_entry u = (counts_ok u \<and> entry_sum u \<le> 2 ^ 53)"

definition safe_counts :: "UsageSnapshot \<Rightarrow> bool" where
  "safe_counts stats =
     ((\<forall>e\<in>set (stats_modelUsage stats). counts_ok (snd e)) \<and>
      sum_list (map (\<lambda>e. entry_sum (snd e)) (stats_modelUsage stats)) \<le> 2 ^ 53)"

section \<open>Example snapshots\<close>

definition no_tokens :: TokenCounts where
  "no_tokens = \<lparr> inputTokens = Undefined, outputTokens = Undefined,
                  cacheReadInputTokens = Undefined, cacheCreationInputTokens = Undefined \<rparr>"

definition empty_snapshot :: UsageSnapshot where
  "empty_snapshot =
     \<lparr> stats_modelUsage = [], stats_dailyActivity = Some [], stats_hourCounts = Some [],
       stats_totalSessions = Undefined, stats_totalMessages = Undefined \<rparr>"



text \<open>Four models, two of them with the same total and one without any count.\<close>

definition tied_models :: UsageSnapshot where
  "tied_models =
     empty_snapshot\<lparr> stats_modelUsage :=
       [(''a'', no_tokens\<lparr> inputTokens := Num 1, outputTokens := Num 2 \<rparr>),
        (''b'', no_tokens),
        (''c'', no_tokens\<lparr> cacheReadInputTokens := Num 3 \<rparr>),
        (''d'', no_tokens\<lparr> inputTokens := Num 5 \<rparr>)] \<rparr>"

text \<open>
  Counts at \<open>2^53 = 9007199254740992\<close>: two models whose counts sum to \<open>2^53 + 1\<close>,
  and two models of which the second listed has one token more.
\<close>

definition beyond_safe :: UsageSnapshot where
  "beyond_safe =
     empty_snapshot\<lparr> stats_modelUsage :=
       [(''x'', no_tokens\<lparr> inputTokens := Num 9007199254740992 \<rparr>),
        (''y'', no_tokens\<lparr> inputTokens := Num 1 \<rparr>)] \<rparr>"


text \<open>Scenario B of the specification.\<close>

definition day :: "string \<Rightarrow> rat \<Rightarrow> DayRecord" where
  "day s n = \<lparr> date = s, messageCount = Num n, sessionCount = Num 1, toolCallCount = Num 0 \<rparr>"

definition scenario_B :: UsageSnapshot where
  "scenario_B =
     empty_snapshot\<lparr> stats_dailyActivity :=
       Some [day ''2026-01-01'' 10, day ''2026-01-02'' 50] \<rparr>"

text \<open>Six days; only the last record carries a \<open>messageCount\<close>.\<close>

definition dated :: "string \<Rightarrow> DayRecord" where
  "dated s = \<lparr> date = s, messageCount = Undefined, sessionCount = Undefined,
               toolCallCount = Undefined \<rparr>"

definition blank_days :: UsageSnapshot where
  "blank_days =
     empty_snapshot\<lparr> stats_dailyActivity :=
       Some [dated ''2026-01-01'', dated ''2026-01-02'', dated ''2026-01-03'',
             dated ''2026-01-04'', dated ''2026-01-05'', day ''2026-01-06'' 3] \<rparr>"

text \<open>A first day whose record carries only its date, and no lifetime counters.\<close>

definition sparse_days :: UsageSnapshot where
  "sparse_days =
     empty_snapshot\<lparr> stats_dailyActivity :=
       Some [\<lparr> date = ''2026-01-01'', messageCount = Undefined, sessionCount = Undefined,
                toolCallCount = Undefined \<rparr>,
             \<lparr> date = ''2026-01-02'', messageCount = Num 5, sessionCount = Num 1,
                toolCallCount = Num 2 \<rparr>] \<rparr>"



section \<open>Doubles: exponents and exact results\<close>

lemma ilog2_bounds:
  assumes "1 \<le> y"
  shows "0 \<le> ilog2 y" "2 powi (ilog2 y) \<le> y" "y < 2 powi (ilog2 y + 1)"
proof -
  define f where "f = \<lfloor>y\<rfloor>"
  have f1: "1 \<le> f" using assms unfolding f_def by simp
  then have f0: "0 < f" by simp
  from bitlen_bounds [OF f0] have lo: "2 ^ nat (bitlen f - 1) \<le> f" and hi: "f < 2 ^ nat (bitlen f)"
    by simp_all
  have b1: "1 \<le> bitlen f"
    using f0 bitlen_eq_zero_iff [of f] bitlen_nonneg [of f] by linarith
  show e0: "0 \<le> ilog2 y" using b1 by (simp add: ilog2_def f_def)
  have "(2::rat) powi (ilog2 y) = of_int (2 ^ nat (bitlen f - 1))"
    using b1 by (simp add: ilog2_def f_def power_int_nonneg_exp)
  also have "\<dots> \<le> of_int f" using lo by (simp only: of_int_le_iff)
  also have "\<dots> \<le> y" unfolding f_def by simp
  finally show "2 powi (ilog2 y) \<le> y" .
  have "f + 1 \<le> 2 ^ nat (bitlen f)" using hi by simp
  then have "(of_int (f + 1) :: rat) \<le> of_int (2 ^ nat (bitlen f))" by (simp only: of_int_le_iff)
  moreover have "y < of_int (f + 1)" unfolding f_def by linarith
  moreover have "(2::rat) powi (ilog2 y + 1) = of_int (2 ^ nat (bitlen f))"
    using b1 by (simp add: ilog2_def f_def power_int_nonneg_exp)
  ultimately show "y < 2 powi (ilog2 y + 1)" by simp
qed

lemma exponent2_bounds:
  assumes "x \<noteq> 0"
  shows "2 powi (exponent2 x) \<le> \<bar>x\<bar> \<and> \<bar>x\<bar> < 2 powi (exponent2 x + 1)"
proof (cases "1 \<le> \<bar>x\<bar>")
  case True
  then show ?thesis
    using ilog2_bounds [OF True] by (simp add: exponent2_def)
next
  case False
  define a where "a = \<bar>x\<bar>"
  have a0: "0 < a" and a1: "a < 1" using assms False by (simp_all add: a_def)
  define e where "e = ilog2 (1 / a)"
  have y1: "1 \<le> 1 / a" using a0 a1 by simp
  from ilog2_bounds [OF y1] have lo: "2 powi e \<le> 1 / a" and hi: "1 / a < 2 powi (e + 1)"
    by (simp_all add: e_def)
  have p: "0 < (2::rat) powi e" "0 < (2::rat) powi (e + 1)" by simp_all
  from lo a0 p have up: "a \<le> 2 powi (- e)"
    by (simp add: power_int_minus field_simps)
  from hi a0 p have dn: "2 powi (- e - 1) < a"
  proof -
    have "- e - 1 = - (e + 1)" by simp
    then have "(2::rat) powi (- e - 1) = 1 / 2 powi (e + 1)"
      by (simp only: power_int_minus_divide)
    also have "\<dots> < a" using hi a0 p by (simp add: field_simps)
    finally show ?thesis .
  qed
  have step: "(2::rat) powi (- e) = 2 * 2 powi (- e - 1)"
    using power_int_add_1 [of "2::rat" "- e - 1"] by simp
  show ?thesis
  proof (cases "a = 2 powi (- e)")
    case True
    have "exponent2 x = - e" using False True by (simp add: exponent2_def a_def e_def Let_def)
    moreover have "a < 2 powi (- e + 1)"
      using True power_int_add_1 [of "2::rat" "- e"] a0 by simp
    ultimately show ?thesis using True by (simp add: a_def)
  next
    case ne: False
    have "exponent2 x = - e - 1" using False ne by (simp add: exponent2_def a_def e_def Let_def)
    moreover have "a < 2 powi (- e)" using up ne by simp
    ultimately show ?thesis using dn by (simp add: a_def)
  qed
qed

lemma exponent2_unique:
  assumes "2 powi e \<le> \<bar>x\<bar>" and "\<bar>x\<bar> < 2 powi (e + 1)"
  shows "exponent2 x = e"
proof -
  have p: "0 < (2::rat) powi e" by simp
  with assms(1) have "0 < \<bar>x\<bar>" by linarith
  then have x0: "x \<noteq> 0" by simp
  from exponent2_bounds [OF x0] have lo: "2 powi (exponent2 x) \<le> \<bar>x\<bar>"
    and hi: "\<bar>x\<bar> < 2 powi (exponent2 x + 1)" by simp_all
  have lt1: "(2::rat) powi e < 2 powi (exponent2 x + 1)" using assms(1) hi by simp
  have a: "e < exponent2 x + 1"
  proof (rule ccontr)
    assume "\<not> e < exponent2 x + 1"
    then have "exponent2 x + 1 \<le> e" by simp
    then have "(2::rat) powi (exponent2 x + 1) \<le> 2 powi e"
      by (rule power_int_increasing) simp
    with lt1 show False by simp
  qed
  have lt2: "(2::rat) powi (exponent2 x) < 2 powi (e + 1)" using lo assms(2) by simp
  have b: "exponent2 x < e + 1"
  proof (rule ccontr)
    assume "\<not> exponent2 x < e + 1"
    then have "e + 1 \<le> exponent2 x" by simp
    then have "(2::rat) powi (e + 1) \<le> 2 powi (exponent2 x)"
      by (rule power_int_increasing) simp
    with lt2 show False by simp
  qed
  from a b show ?thesis by simp
qed


lemma round_even_of_int: "round_even (of_int k) = k"
  by (simp add: round_even_def)

lemma fl_0: "fl 0 = 0"
  by (simp add: fl_def)

lemma fl_eval:
  assumes "2 powi e \<le> \<bar>x\<bar>" and "\<bar>x\<bar> < 2 powi (e + 1)"
  shows "fl x = of_int (round_even (x / 2 powi (max e (- 1022) - 52))) * 2 powi (max e (- 1022) - 52)"
proof -
  have "0 < (2::rat) powi e" by simp
  with assms(1) have "0 < \<bar>x\<bar>" by linarith
  then have "x \<noteq> 0" by simp
  then show ?thesis
    by (simp add: fl_def Let_def exponent2_unique [OF assms])
qed

lemma fl_exact:
  assumes "2 powi e \<le> \<bar>x\<bar>" and "\<bar>x\<bar> < 2 powi (e + 1)"
    and "x / 2 powi (max e (- 1022) - 52) = of_int m"
  shows "fl x = x"
proof -
  have u: "(2::rat) powi (max e (- 1022) - 52) \<noteq> 0" by simp
  have "fl x = of_int m * 2 powi (max e (- 1022) - 52)"
    by (simp only: fl_eval [OF assms(1,2)] assms(3) round_even_of_int)
  also have "\<dots> = x" using assms(3) u by (simp add: field_simps)
  finally show ?thesis .
qed

lemma fl_dyadic:
  assumes "\<bar>n\<bar> \<le> 2 ^ 53" and "- 1074 \<le> k"
  shows "fl (of_int n * 2 powi k) = of_int n * 2 powi k"
proof (cases "n = 0")
  case True
  then show ?thesis by (simp add: fl_0)
next
  case False
  define en where "en = exponent2 (of_int n)"
  have n0: "(of_int n :: rat) \<noteq> 0" using False by simp
  from exponent2_bounds [OF n0] have lo: "2 powi en \<le> \<bar>of_int n :: rat\<bar>"
    and hi: "\<bar>of_int n :: rat\<bar> < 2 powi (en + 1)" by (simp_all add: en_def)
  have "1 \<le> \<bar>n\<bar>" using False by simp
  then have "(of_int 1 :: rat) \<le> of_int \<bar>n\<bar>" by (simp only: of_int_le_iff)
  then have n1: "(1::rat) \<le> \<bar>of_int n\<bar>" by simp
  have en0: "0 \<le> en"
  proof (rule ccontr)
    assume "\<not> 0 \<le> en"
    then have "en + 1 \<le> 0" by simp
    then have "(2::rat) powi (en + 1) \<le> 2 powi 0" by (rule power_int_increasing) simp
    with hi n1 show False by simp
  qed
  have nb: "\<bar>of_int n :: rat\<bar> \<le> 2 ^ 53"
    using assms(1) by (metis of_int_abs of_int_le_iff of_int_numeral of_int_power)
  have en53: "en \<le> 53"
  proof (rule ccontr)
    assume "\<not> en \<le> 53"
    then have "54 \<le> en" by simp
    then have "(2::rat) powi 54 \<le> 2 powi en" by (rule power_int_increasing) simp
    with lo nb show False by simp
  qed
  define x :: rat where "x = of_int n * 2 powi k"
  have pk: "0 < (2::rat) powi k" by simp
  have absx: "\<bar>x\<bar> = \<bar>of_int n\<bar> * 2 powi k" by (simp add: x_def abs_mult)
  have xlo: "2 powi (en + k) \<le> \<bar>x\<bar>"
    using lo pk by (simp add: absx power_int_add)
  have xhi: "\<bar>x\<bar> < 2 powi (en + k + 1)"
  proof -
    have "\<bar>of_int n :: rat\<bar> * 2 powi k < 2 powi (en + 1) * 2 powi k"
      using hi pk by simp
    also have "\<dots> = 2 powi (en + k + 1)" by (simp add: power_int_add add.assoc add.commute)
    finally show ?thesis by (simp add: absx)
  qed
  define e where "e = max (en + k) (- 1022)"
  have "\<exists>m. x / 2 powi (e - 52) = of_int m"
  proof (cases "- 1022 \<le> en + k")
    case True
    then have e: "e = en + k" by (simp add: e_def)
    have q: "x / 2 powi (e - 52) = of_int n * 2 powi (52 - en)"
    proof -
      have "k - (e - 52) = 52 - en" by (simp add: e)
      then have "(2::rat) powi (52 - en) = 2 powi k / 2 powi (e - 52)"
        by (metis power_int_diff zero_neq_numeral)
      then show ?thesis by (simp add: x_def)
    qed
    show ?thesis
    proof (cases "en \<le> 52")
      case True
      then have "(2::rat) powi (52 - en) = of_int (2 ^ nat (52 - en))"
        by (simp add: power_int_nonneg_exp)
      then have "x / 2 powi (e - 52) = of_int (n * 2 ^ nat (52 - en))"
        by (simp add: q)
      then show ?thesis by blast
    next
      case False
      with en53 have en: "en = 53" by simp
      have "(2::rat) ^ 53 \<le> \<bar>of_int n\<bar>" using lo by (simp add: en)
      with nb have "\<bar>of_int n :: rat\<bar> = 2 ^ 53" by simp
      then have "\<bar>n\<bar> = 2 ^ 53"
        by (metis of_int_abs of_int_eq_iff of_int_numeral of_int_power)
      then have "n = 2 ^ 53 \<or> n = - (2 ^ 53)" by linarith
      then have "n = 2 * (n div 2)" by (elim disjE) simp_all
      then have "(of_int n :: rat) = 2 * of_int (n div 2)"
        by (metis of_int_mult of_int_numeral)
      then have "x / 2 powi (e - 52) = of_int (n div 2)"
        by (simp add: q en power_int_minus)
      then show ?thesis by blast
    qed
  next
    case False
    then have e: "e = - 1022" by (simp add: e_def)
    have "k - (e - 52) = k + 1074" by (simp add: e)
    then have "(2::rat) powi (k + 1074) = 2 powi k / 2 powi (e - 52)"
      by (metis power_int_diff zero_neq_numeral)
    moreover have "(2::rat) powi (k + 1074) = of_int (2 ^ nat (k + 1074))"
      using assms(2) by (simp add: power_int_nonneg_exp)
    ultimately have "x / 2 powi (e - 52) = of_int (n * 2 ^ nat (k + 1074))"
      by (simp add: x_def)
    then show ?thesis by blast
  qed
  then obtain m where m: "x / 2 powi (max (en + k) (- 1022) - 52) = of_int m"
    unfolding e_def by blast
  have "fl x = x" by (rule fl_exact [OF xlo _ m]) (use xhi in \<open>simp add: add.assoc\<close>)
  then show ?thesis by (simp add: x_def)
qed

lemma fl_int: "\<bar>n\<bar> \<le> 2 ^ 53 \<Longrightarrow> fl (of_int n) = of_int n"
  using fl_dyadic [of n 0] by simp

lemma fl_is_count: "is_count r \<Longrightarrow> r \<le> 2 ^ 53 \<Longrightarrow> fl r = r"
proof -
  assume c: "is_count r" and b: "r \<le> 2 ^ 53"
  define n where "n = \<lfloor>r\<rfloor>"
  from c have "of_int \<lfloor>r\<rfloor> = r" and r0: "0 \<le> r" unfolding is_count_def by blast+
  then have r: "r = of_int n" by (simp only: n_def)
  from r0 have n0: "0 \<le> n" by (simp add: n_def)
  from b have "(of_int n :: rat) \<le> of_int (2 ^ 53)" by (simp add: r)
  then have "n \<le> 2 ^ 53" by (simp only: of_int_le_iff)
  with n0 have "\<bar>n\<bar> \<le> 2 ^ 53" by simp
  then show ?thesis unfolding r by (rule fl_int)
qed

lemma is_count_add: "is_count a \<Longrightarrow> is_count b \<Longrightarrow> is_count (a + b)"
proof -
  assume "is_count a" and "is_count b"
  then have a: "of_int \<lfloor>a\<rfloor> = a" "0 \<le> a" and b: "of_int \<lfloor>b\<rfloor> = b" "0 \<le> b"
    unfolding is_count_def by blast+
  have "of_int (\<lfloor>a\<rfloor> + \<lfloor>b\<rfloor>) = a + b" by (simp only: of_int_add a(1) b(1))
  then have "of_int \<lfloor>a + b\<rfloor> = a + b" by (metis floor_of_int)
  with a(2) b(2) show ?thesis unfolding is_count_def by simp
qed

lemma is_count_0: "is_count 0"
  by (simp add: is_count_def)

lemma fl_add_counts:
  "is_count a \<Longrightarrow> is_count b \<Longrightarrow> a + b \<le> 2 ^ 53 \<Longrightarrow> fl (a + b) = a + b"
  by (rule fl_is_count) (simp_all add: is_count_add)

lemma foldl_fl_exact:
  assumes "\<forall>x\<in>set xs. is_count (g x)" and "is_count a"
    and "a + sum_list (map g xs) \<le> 2 ^ 53"
  shows "foldl (\<lambda>s m. fl (s + g m)) a xs = a + sum_list (map g xs)"
  using assms
proof (induction xs arbitrary: a)
  case Nil
  show ?case by simp
next
  case (Cons x xs)
  have cx: "is_count (g x)" using Cons.prems(1) by simp
  have nn: "0 \<le> sum_list (map g xs)"
    using Cons.prems(1) by (intro sum_list_nonneg) (auto simp: is_count_def)
  have le: "a + g x \<le> 2 ^ 53" using Cons.prems(3) nn by simp
  have ex: "fl (a + g x) = a + g x" by (rule fl_add_counts [OF Cons.prems(2) cx le])
  have "foldl (\<lambda>s m. fl (s + g m)) (a + g x) xs = (a + g x) + sum_list (map g xs)"
    using Cons.prems by (intro Cons.IH) (simp_all add: is_count_add add.assoc)
  then show ?case by (simp add: ex add.assoc)
qed

lemma floor_rat_numeral_div: "\<lfloor>(numeral a :: rat) / numeral b\<rfloor> = numeral a div numeral b"
  using floor_divide_of_int_eq [of "numeral a" "numeral b", where ?'a = rat] by simp

lemma fl_tie: "fl 9007199254740993 = 9007199254740992"
proof -
  have "fl 9007199254740993 =
      of_int (round_even (9007199254740993 / 2 powi (max 53 (- 1022) - 52))) *
      2 powi (max 53 (- 1022) - 52)"
    by (rule fl_eval) simp_all
  also have "\<dots> = 9007199254740992"
    by (simp add: round_even_def Let_def floor_rat_numeral_div)
  finally show ?thesis .
qed


lemma fl_numeral: "(numeral k :: rat) \<le> 2 ^ 53 \<Longrightarrow> fl (numeral k) = numeral k"
  using fl_int [of "numeral k"] by simp

lemma fl_neg_numeral: "(numeral k :: rat) \<le> 2 ^ 53 \<Longrightarrow> fl (- numeral k) = - numeral k"
  using fl_int [of "- numeral k"] by simp

lemma fl_1: "fl 1 = 1"
  using fl_int [of 1] by simp

lemmas fl_small = fl_0 fl_1 fl_numeral fl_neg_numeral

lemma is_count_numeral: "is_count (numeral k)"
  by (simp add: is_count_def)

lemma is_count_1: "is_count 1"
  by (simp add: is_count_def)

lemmas is_count_small = is_count_0 is_count_1 is_count_numeral

section \<open>Sums over the ranked models\<close>

text \<open>\<open>or_zero\<close> is the number that \<^verbatim>\<open>x || 0\<close> evaluates to.\<close>

lemma js_or_zero: "js_or x (Num 0) = Num (or_zero x)"
  by (cases x) (simp_all add: js_or_def)

lemma mset_insert_cmp: "mset (insert_cmp cmp x ys) = add_mset x (mset ys)"
  by (induction ys) simp_all

lemma mset_js_sort: "mset (js_sort cmp xs) = mset xs"
  by (induction xs) (simp_all add: js_sort_def mset_insert_cmp)

lemma set_js_sort: "set (js_sort cmp xs) = set xs"
  by (metis mset_js_sort set_mset_mset)

lemma sum_list_js_sort:
  fixes g :: "'a \<Rightarrow> rat"
  shows "sum_list (map g (js_sort cmp xs)) = sum_list (map g xs)"
proof -
  have "sum_mset (image_mset g (mset (js_sort cmp xs))) = sum_mset (image_mset g (mset xs))"
    by (simp add: mset_js_sort)
  then show ?thesis
    by (simp flip: mset_map add: sum_mset_sum_list)
qed

lemma is_count_nonneg: "is_count r \<Longrightarrow> 0 \<le> r"
  by (simp add: is_count_def)

lemma entry_sum_is_count: "counts_ok u \<Longrightarrow> is_count (entry_sum u)"
  by (simp add: counts_ok_def entry_sum_def is_count_add)

lemma aggregate_fields:
  "m_id (aggregate e) = fst e"
  "inputTokens (aggregate e) = inputTokens (snd e)"
  "outputTokens (aggregate e) = outputTokens (snd e)"
  "cacheReadInputTokens (aggregate e) = cacheReadInputTokens (snd e)"
  "cacheCreationInputTokens (aggregate e) = cacheCreationInputTokens (snd e)"
  by (simp_all add: aggregate_def split_beta Let_def)

lemma aggregate_total_exact:
  assumes "safe_entry (snd e)"
  shows "m_total (aggregate e) = entry_sum (snd e)"
proof -
  define a where "a = or_zero (inputTokens (snd e))"
  define b where "b = or_zero (outputTokens (snd e))"
  define c where "c = or_zero (cacheReadInputTokens (snd e))"
  define d where "d = or_zero (cacheCreationInputTokens (snd e))"
  from assms have ca: "is_count a" and cb: "is_count b" and cc: "is_count c" and cd: "is_count d"
    and le: "a + b + c + d \<le> 2 ^ 53"
    by (simp_all add: safe_entry_def counts_ok_def entry_sum_def a_def b_def c_def d_def)
  have nn: "0 \<le> c" "0 \<le> d" using cc cd by (simp_all add: is_count_nonneg)
  have s1: "fl (a + b) = a + b"
    by (rule fl_add_counts [OF ca cb]) (use le nn in linarith)
  have s2: "fl (a + b + c) = a + b + c"
    by (rule fl_add_counts [OF is_count_add [OF ca cb] cc]) (use le nn in linarith)
  have s3: "fl (a + b + c + d) = a + b + c + d"
    by (rule fl_add_counts [OF is_count_add [OF is_count_add [OF ca cb] cc] cd]) (rule le)
  have "m_total (aggregate e) = fl (fl (fl (a + b) + c) + d)"
    by (simp add: aggregate_def split_beta Let_def a_def b_def c_def d_def)
  also have "\<dots> = a + b + c + d" by (simp only: s1 s2 s3)
  finally show ?thesis by (simp add: entry_sum_def a_def b_def c_def d_def)
qed

lemma sum_list_member_le:
  fixes g :: "'a \<Rightarrow> rat"
  assumes "\<forall>y\<in>set xs. 0 \<le> g y" and "x \<in> set xs"
  shows "g x \<le> sum_list (map g xs)"
  using assms
proof (induction xs)
  case Nil
  then show ?case by simp
next
  case (Cons y ys)
  have nn: "0 \<le> sum_list (map g ys)"
    using Cons.prems(1) by (intro sum_list_nonneg) auto
  show ?case
  proof (cases "x = y")
    case True
    then show ?thesis using nn by simp
  next
    case False
    with Cons.prems have "x \<in> set ys" by simp
    with Cons.IH Cons.prems(1) have "g x \<le> sum_list (map g ys)" by simp
    moreover have "0 \<le> g y" using Cons.prems(1) by simp
    ultimately show ?thesis by simp
  qed
qed

lemma safe_counts_entry:
  assumes "safe_counts stats" and "e \<in> set (stats_modelUsage stats)"
  shows "safe_entry (snd e)"
proof -
  from assms have ok: "\<forall>y\<in>set (stats_modelUsage stats). counts_ok (snd y)"
    and le: "sum_list (map (\<lambda>e. entry_sum (snd e)) (stats_modelUsage stats)) \<le> 2 ^ 53"
    by (simp_all add: safe_counts_def)
  have "\<forall>y\<in>set (stats_modelUsage stats). 0 \<le> entry_sum (snd y)"
    using ok by (auto intro: is_count_nonneg entry_sum_is_count)
  from sum_list_member_le [OF this assms(2)] le have "entry_sum (snd e) \<le> 2 ^ 53" by simp
  with ok assms(2) show ?thesis by (simp add: safe_entry_def)
qed

text \<open>
  A reduce \<^verbatim>\<open>models.reduce((s, m) => s + g(m), 0)\<close> over counts that stay within
  \<open>2^53\<close> is the sum over the entries of \<^verbatim>\<open>modelUsage\<close>.
\<close>

lemma total_over_models:
  fixes g :: "ModelAggregate \<Rightarrow> rat"
  assumes "\<forall>e\<in>set (stats_modelUsage stats). is_count (g (aggregate e))"
    and "sum_list (map (\<lambda>e. g (aggregate e)) (stats_modelUsage stats)) \<le> 2 ^ 53"
  shows "foldl (\<lambda>s m. fl (s + g m)) 0 (models stats) =
         sum_list (map (\<lambda>e. g (aggregate e)) (stats_modelUsage stats))"
proof -
  have s: "sum_list (map g (models stats)) =
           sum_list (map (\<lambda>e. g (aggregate e)) (stats_modelUsage stats))"
    by (simp add: models_def sum_list_js_sort comp_def)
  have c: "\<forall>m\<in>set (models stats). is_count (g m)"
    using assms(1) by (auto simp: models_def set_js_sort)
  have b: "0 + sum_list (map g (models stats)) \<le> 2 ^ 53"
    unfolding s using assms(2) by simp
  have "foldl (\<lambda>s m. fl (s + g m)) 0 (models stats) = 0 + sum_list (map g (models stats))"
    by (rule foldl_fl_exact [OF c is_count_0 b])
  then show ?thesis by (simp add: s)
qed

lemma category_over_models:
  fixes g :: "ModelAggregate \<Rightarrow> rat" and h :: "string \<times> TokenCounts \<Rightarrow> rat"
  assumes "safe_counts stats"
    and gh: "\<And>e. e \<in> set (stats_modelUsage stats) \<Longrightarrow> g (aggregate e) = h e"
    and cnt: "\<And>e. e \<in> set (stats_modelUsage stats) \<Longrightarrow> is_count (h e)"
    and le: "\<And>e. e \<in> set (stats_modelUsage stats) \<Longrightarrow> h e \<le> entry_sum (snd e)"
  shows "foldl (\<lambda>s m. fl (s + g m)) 0 (models stats) = sum_list (map h (stats_modelUsage stats))"
proof -
  let ?mu = "stats_modelUsage stats"
  have eq: "map (\<lambda>e. g (aggregate e)) ?mu = map h ?mu"
    by (rule map_cong [OF refl]) (rule gh)
  have "sum_list (map h ?mu) \<le> sum_list (map (\<lambda>e. entry_sum (snd e)) ?mu)"
    by (rule sum_list_mono) (rule le)
  also have "\<dots> \<le> 2 ^ 53" using assms(1) by (simp add: safe_counts_def)
  finally have b: "sum_list (map (\<lambda>e. g (aggregate e)) ?mu) \<le> 2 ^ 53"
    by (simp only: eq)
  have c: "\<forall>e\<in>set ?mu. is_count (g (aggregate e))"
    using gh cnt by simp
  show ?thesis
    using total_over_models [OF c b] by (simp only: eq)
qed

lemma category_le_entry_sum:
  assumes "counts_ok u"
  shows "or_zero (inputTokens u) \<le> entry_sum u" "or_zero (outputTokens u) \<le> entry_sum u"
    "or_zero (cacheReadInputTokens u) \<le> entry_sum u"
    "or_zero (cacheCreationInputTokens u) \<le> entry_sum u"
  using assms by (auto simp: counts_ok_def entry_sum_def dest!: is_count_nonneg)

text \<open>
  C1, for counts in the safe range. For every snapshot whose token counts are
  non-negative integers that sum to at most \<open>2^53\<close>, \<open>totalTokens\<close> is the sum over all
  models of \<open>inputTokens + outputTokens + cacheReadInputTokens + cacheCreationInputTokens\<close>,
  an absent field counting as \<open>0\<close>, and each of the four grand totals is the sum of its
  token category over all models.
\<close>

theorem totals_consistency:
  assumes "safe_counts stats"
  shows "totalTokens stats =
     sum_list (map (\<lambda>e. or_zero (inputTokens (snd e)) + or_zero (outputTokens (snd e)) +
                         or_zero (cacheReadInputTokens (snd e)) +
                         or_zero (cacheCreationInputTokens (snd e)))
                   (stats_modelUsage stats))
   \<and> totalInput stats = sum_list (map (\<lambda>e. or_zero (inputTokens (snd e))) (stats_modelUsage stats))
   \<and> totalOutput stats = sum_list (map (\<lambda>e. or_zero (outputTokens (snd e))) (stats_modelUsage stats))
   \<and> totalCacheRead stats =
       sum_list (map (\<lambda>e. or_zero (cacheReadInputTokens (snd e))) (stats_modelUsage stats))
   \<and> totalCacheCreate stats =
       sum_list (map (\<lambda>e. or_zero (cacheCreationInputTokens (snd e))) (stats_modelUsage stats))"
proof -
  let ?mu = "stats_modelUsage stats"
  have ok: "counts_ok (snd e)" if "e \<in> set ?mu" for e
    using assms that by (simp add: safe_counts_def)
  have t: "totalTokens stats = sum_list (map (\<lambda>e. entry_sum (snd e)) ?mu)"
    unfolding totalTokens_def
  proof (rule category_over_models [OF assms])
    fix e assume e: "e \<in> set ?mu"
    show "m_total (aggregate e) = entry_sum (snd e)"
      by (rule aggregate_total_exact) (rule safe_counts_entry [OF assms e])
    show "is_count (entry_sum (snd e))" by (rule entry_sum_is_count) (rule ok [OF e])
    show "entry_sum (snd e) \<le> entry_sum (snd e)" by simp
  qed
  have i: "totalInput stats = sum_list (map (\<lambda>e. or_zero (inputTokens (snd e))) ?mu)"
    unfolding totalInput_def
  proof (rule category_over_models [OF assms])
    fix e assume e: "e \<in> set ?mu"
    show "or_zero (inputTokens (aggregate e)) = or_zero (inputTokens (snd e))"
      by (simp only: aggregate_fields)
    show "is_count (or_zero (inputTokens (snd e)))" using ok [OF e] by (simp add: counts_ok_def)
    show "or_zero (inputTokens (snd e)) \<le> entry_sum (snd e)"
      by (rule category_le_entry_sum) (rule ok [OF e])
  qed
  have o: "totalOutput stats = sum_list (map (\<lambda>e. or_zero (outputTokens (snd e))) ?mu)"
    unfolding totalOutput_def
  proof (rule category_over_models [OF assms])
    fix e assume e: "e \<in> set ?mu"
    show "or_zero (outputTokens (aggregate e)) = or_zero (outputTokens (snd e))"
      by (simp only: aggregate_fields)
    show "is_count (or_zero (outputTokens (snd e)))" using ok [OF e] by (simp add: counts_ok_def)
    show "or_zero (outputTokens (snd e)) \<le> entry_sum (snd e)"
      by (rule category_le_entry_sum) (rule ok [OF e])
  qed
  have r: "totalCacheRead stats = sum_list (map (\<lambda>e. or_zero (cacheReadInputTokens (snd e))) ?mu)"
    unfolding totalCacheRead_def
  proof (rule category_over_models [OF assms])
    fix e assume e: "e \<in> set ?mu"
    show "or_zero (cacheReadInputTokens (aggregate e)) = or_zero (cacheReadInputTokens (snd e))"
      by (simp only: aggregate_fields)
    show "is_count (or_zero (cacheReadInputTokens (snd e)))"
      using ok [OF e] by (simp add: counts_ok_def)
    show "or_zero (cacheReadInputTokens (snd e)) \<le> entry_sum (snd e)"
      by (rule category_le_entry_sum) (rule ok [OF e])
  qed
  have c: "totalCacheCreate stats =
           sum_list (map (\<lambda>e. or_zero (cacheCreationInputTokens (snd e))) ?mu)"
    unfolding totalCacheCreate_def
  proof (rule category_over_models [OF assms])
    fix e assume e: "e \<in> set ?mu"
    show "or_zero (cacheCreationInputTokens (aggregate e)) =
          or_zero (cacheCreationInputTokens (snd e))"
      by (simp only: aggregate_fields)
    show "is_count (or_zero (cacheCreationInputTokens (snd e)))"
      using ok [OF e] by (simp add: counts_ok_def)
    show "or_zero (cacheCreationInputTokens (snd e)) \<le> entry_sum (snd e)"
      by (rule category_le_entry_sum) (rule ok [OF e])
  qed
  from t i o r c show ?thesis by (simp add: entry_sum_def)
qed

lemmas eval_models = models_def js_sort_def aggregate_def empty_snapshot_def no_tokens_def

theorem totals_consistency_witness:
  "safe_counts tied_models
   \<and> totalTokens tied_models = 11 \<and> totalInput tied_models = 6 \<and> totalOutput tied_models = 2
   \<and> totalCacheRead tied_models = 3 \<and> totalCacheCreate tied_models = 0"
proof -
  have s: "safe_counts tied_models"
    by (simp add: safe_counts_def counts_ok_def entry_sum_def tied_models_def empty_snapshot_def
        no_tokens_def is_count_small)
  from totals_consistency [OF s] show ?thesis
    using s by (simp add: tied_models_def empty_snapshot_def no_tokens_def)
qed

text \<open>
  C1 as stated, for every snapshot, fails beyond \<open>2^53\<close>: with one model of \<open>2^53\<close>
  input tokens and one of a single input token the counts sum to \<open>2^53 + 1\<close>, and the
  sums of doubles \<open>totalTokens\<close> and \<open>totalInput\<close> are \<open>2^53\<close>.
\<close>

theorem totals_beyond_safe_counterexample:
  "sum_list (map (\<lambda>e. entry_sum (snd e)) (stats_modelUsage beyond_safe)) = 9007199254740993
   \<and> totalTokens beyond_safe = 9007199254740992
   \<and> sum_list (map (\<lambda>e. or_zero (inputTokens (snd e))) (stats_modelUsage beyond_safe)) =
       9007199254740993
   \<and> totalInput beyond_safe = 9007199254740992"
proof -
  have m: "map m_id (models beyond_safe) = [''x'', ''y'']"
    "map m_total (models beyond_safe) = [9007199254740992, 1]"
    "map (\<lambda>m. or_zero (inputTokens m)) (models beyond_safe) = [9007199254740992, 1]"
    by (simp_all add: beyond_safe_def eval_models fl_small)
  have f: "foldl (\<lambda>s m. fl (s + g m)) 0 xs = foldl (\<lambda>s r. fl (s + r)) 0 (map g xs)"
    for g :: "ModelAggregate \<Rightarrow> rat" and xs
    by (simp add: foldl_map)
  have "totalTokens beyond_safe = 9007199254740992"
    unfolding totalTokens_def f m by (simp add: fl_small fl_tie)
  moreover have "totalInput beyond_safe = 9007199254740992"
    unfolding totalInput_def f m by (simp add: fl_small fl_tie)
  ultimately show ?thesis
    by (simp add: beyond_safe_def empty_snapshot_def no_tokens_def entry_sum_def)
qed

section \<open>The ranking of the models\<close>

lemma insert_cmp_insort_key:
  fixes f :: "'a \<Rightarrow> rat"
  assumes "\<And>b. b \<in> set ys \<Longrightarrow> (cmp_result (cmp x b) \<le> 0) = (f x \<le> f b)"
  shows "insert_cmp cmp x ys = insort_key f x ys"
  using assms by (induction ys) auto

lemma js_sort_Cons: "js_sort cmp (x # xs) = insert_cmp cmp x (js_sort cmp xs)"
  by (simp add: js_sort_def)

lemma js_sort_sort_key:
  fixes f :: "'a \<Rightarrow> rat"
  assumes "\<And>a b. a \<in> set xs \<Longrightarrow> b \<in> set xs \<Longrightarrow> (cmp_result (cmp a b) \<le> 0) = (f a \<le> f b)"
  shows "js_sort cmp xs = sort_key f xs"
  using assms
proof (induction xs)
  case Nil
  show ?case by (simp add: js_sort_def)
next
  case (Cons x xs)
  have ih: "js_sort cmp xs = sort_key f xs"
    by (rule Cons.IH) (simp add: Cons.prems)
  have "insert_cmp cmp x (sort_key f xs) = insort_key f x (sort_key f xs)"
    by (rule insert_cmp_insort_key) (simp add: Cons.prems)
  with ih show ?case by (simp add: js_sort_Cons)
qed












section \<open>The peak day\<close>

lemma js_gt_irrefl: "\<not> js_gt a a"
  by (cases a) simp_all

lemma js_gt_trans: "js_gt a b \<Longrightarrow> js_gt b c \<Longrightarrow> js_gt a c"
  by (cases a; cases b; cases c) simp_all

lemma peak_fold_first_max:
  assumes "xs \<noteq> []"
  shows "\<exists>pre post. xs = pre @ foldl peak_step (hd xs) xs # post
           \<and> (\<forall>d\<in>set pre. messageCount d \<noteq> messageCount (foldl peak_step (hd xs) xs))
           \<and> (\<forall>d\<in>set xs. \<not> js_gt (messageCount d) (messageCount (foldl peak_step (hd xs) xs)))"
  using assms
proof (induction xs rule: rev_nonempty_induct)
  case (single x)
  have "foldl peak_step (hd [x]) [x] = x"
    by (simp add: peak_step_def js_gt_irrefl)
  then have "[x] = [] @ foldl peak_step (hd [x]) [x] # []
      \<and> (\<forall>d\<in>set []. messageCount d \<noteq> messageCount (foldl peak_step (hd [x]) [x]))
      \<and> (\<forall>d\<in>set [x]. \<not> js_gt (messageCount d) (messageCount (foldl peak_step (hd [x]) [x])))"
    by (simp add: js_gt_irrefl)
  then show ?case by blast
next
  case (snoc x xs)
  define p where "p = foldl peak_step (hd xs) xs"
  define q where "q = foldl peak_step (hd (xs @ [x])) (xs @ [x])"
  from snoc.IH obtain pre post where
    split: "xs = pre @ p # post"
    and before: "\<forall>d\<in>set pre. messageCount d \<noteq> messageCount p"
    and none: "\<forall>d\<in>set xs. \<not> js_gt (messageCount d) (messageCount p)"
    unfolding p_def by blast
  have q: "q = peak_step p x"
    unfolding p_def q_def using snoc.hyps by simp
  have "\<exists>pre post. xs @ [x] = pre @ q # post
           \<and> (\<forall>d\<in>set pre. messageCount d \<noteq> messageCount q)
           \<and> (\<forall>d\<in>set (xs @ [x]). \<not> js_gt (messageCount d) (messageCount q))"
  proof (cases "js_gt (messageCount x) (messageCount p)")
    case True
    then have new: "q = x" by (simp add: q peak_step_def)
    have a: "\<forall>d\<in>set xs. messageCount d \<noteq> messageCount x"
      using True none by metis
    have b: "\<forall>d\<in>set (xs @ [x]). \<not> js_gt (messageCount d) (messageCount x)"
    proof
      fix d assume "d \<in> set (xs @ [x])"
      then consider "d \<in> set xs" | "d = x" by auto
      then show "\<not> js_gt (messageCount d) (messageCount x)"
      proof cases
        case 1
        with none have "\<not> js_gt (messageCount d) (messageCount p)" by blast
        with True show ?thesis using js_gt_trans by blast
      next
        case 2
        then show ?thesis by (simp add: js_gt_irrefl)
      qed
    qed
    have "xs @ [x] = xs @ q # []" by (simp add: new)
    with a b new show ?thesis by blast
  next
    case False
    then have old: "q = p" by (simp add: q peak_step_def)
    have "xs @ [x] = pre @ q # (post @ [x])"
      using split by (simp add: old)
    moreover have "\<forall>d\<in>set pre. messageCount d \<noteq> messageCount q"
      using before by (simp add: old)
    moreover have "\<forall>d\<in>set (xs @ [x]). \<not> js_gt (messageCount d) (messageCount q)"
      using none False by (simp add: old)
    ultimately show ?thesis by blast
  qed
  then show ?case unfolding q_def .
qed

lemma peakDay_nonempty: "daily stats \<noteq> [] \<Longrightarrow> peakDay stats = foldl peak_step (hd (daily stats)) (daily stats)"
  by (cases "daily stats") (simp_all add: peakDay_def)

text \<open>
  C3. For every non-empty \<open>dailyActivity\<close>, \<open>peakDay\<close> is the left-to-right reduce
  that starts from the first record and replaces the accumulator only by a record whose
  \<open>messageCount\<close> is strictly greater. So no record has a greater \<open>messageCount\<close>
  than the peak day, and no record before it has the same one: the first record among
  ties wins. For the two days of Scenario B (\<open>messageCount\<close> 10, then 50) the date of
  the peak day is \<open>2026-01-02\<close> and \<open>topDays\<close> is the second day, then the first.
\<close>

theorem peakDay_first_among_ties:
  "(daily stats \<noteq> [] \<longrightarrow>
      peakDay stats = foldl peak_step (hd (daily stats)) (daily stats)
      \<and> (\<exists>pre post. daily stats = pre @ peakDay stats # post
            \<and> (\<forall>d\<in>set pre. messageCount d \<noteq> messageCount (peakDay stats)))
      \<and> (\<forall>d\<in>set (daily stats). \<not> js_gt (messageCount d) (messageCount (peakDay stats))))
   \<and> (\<forall>mx d. peak_step mx d = (if js_gt (messageCount d) (messageCount mx) then d else mx))
   \<and> (\<forall>d1 d2. stats_dailyActivity stats = Some [d1, d2]
          \<and> date d1 = ''2026-01-01'' \<and> messageCount d1 = Num 10
          \<and> date d2 = ''2026-01-02'' \<and> messageCount d2 = Num 50
          \<longrightarrow> date (peakDay stats) = ''2026-01-02'' \<and> topDays stats = [d2, d1])"
proof (intro conjI impI allI)
  assume ne: "daily stats \<noteq> []"
  show "peakDay stats = foldl peak_step (hd (daily stats)) (daily stats)"
    using ne by (rule peakDay_nonempty)
  from peak_fold_first_max [OF ne]
  show "\<exists>pre post. daily stats = pre @ peakDay stats # post
            \<and> (\<forall>d\<in>set pre. messageCount d \<noteq> messageCount (peakDay stats))"
    unfolding peakDay_nonempty [OF ne] by blast
  from peak_fold_first_max [OF ne]
  show "\<forall>d\<in>set (daily stats). \<not> js_gt (messageCount d) (messageCount (peakDay stats))"
    unfolding peakDay_nonempty [OF ne] by blast
next
  fix mx d
  show "peak_step mx d = (if js_gt (messageCount d) (messageCount mx) then d else mx)"
    by (rule peak_step_def)
next
  fix d1 d2
  assume b: "stats_dailyActivity stats = Some [d1, d2]
          \<and> date d1 = ''2026-01-01'' \<and> messageCount d1 = Num 10
          \<and> date d2 = ''2026-01-02'' \<and> messageCount d2 = Num 50"
  then have dl: "daily stats = [d1, d2]" by (simp add: daily_def)
  show "date (peakDay stats) = ''2026-01-02''"
    using b by (simp add: peakDay_def dl peak_step_def)
  show "topDays stats = [d2, d1]"
    using b by (simp add: topDays_def dl js_sort_def)
qed

theorem peakDay_first_among_ties_witness:
  "daily scenario_B = [day ''2026-01-01'' 10, day ''2026-01-02'' 50]
   \<and> peakDay scenario_B = day ''2026-01-02'' 50
   \<and> date (peakDay scenario_B) = ''2026-01-02''
   \<and> topDays scenario_B = [day ''2026-01-02'' 50, day ''2026-01-01'' 10]
   \<and> \<not> js_gt (messageCount (day ''2026-01-01'' 10)) (messageCount (peakDay scenario_B))"
proof -
  note t = peakDay_first_among_ties [of scenario_B]
  have dl: "daily scenario_B = [day ''2026-01-01'' 10, day ''2026-01-02'' 50]"
    by (simp add: daily_def scenario_B_def empty_snapshot_def)
  then have ne: "daily scenario_B \<noteq> []" by simp
  have b: "stats_dailyActivity scenario_B = Some [day ''2026-01-01'' 10, day ''2026-01-02'' 50]
          \<and> date (day ''2026-01-01'' 10) = ''2026-01-01''
          \<and> messageCount (day ''2026-01-01'' 10) = Num 10
          \<and> date (day ''2026-01-02'' 50) = ''2026-01-02''
          \<and> messageCount (day ''2026-01-02'' 50) = Num 50"
    by (simp add: scenario_B_def empty_snapshot_def day_def)
  from t ne have fold: "peakDay scenario_B = foldl peak_step (hd (daily scenario_B)) (daily scenario_B)"
    by blast
  have pk: "peakDay scenario_B = day ''2026-01-02'' 50"
    unfolding fold dl by (simp add: peak_step_def day_def)
  from t b have sc: "date (peakDay scenario_B) = ''2026-01-02''
      \<and> topDays scenario_B = [day ''2026-01-02'' 50, day ''2026-01-01'' 10]"
    by blast
  from t ne have "\<forall>d\<in>set (daily scenario_B). \<not> js_gt (messageCount d) (messageCount (peakDay scenario_B))"
    by blast
  then have "\<not> js_gt (messageCount (day ''2026-01-01'' 10)) (messageCount (peakDay scenario_B))"
    unfolding dl by simp
  with dl pk sc show ?thesis by blast
qed

section \<open>The top five days\<close>

lemma length_js_sort: "length (js_sort cmp xs) = length xs"
  by (metis mset_js_sort size_mset)

lemma day_sort_key:
  fixes xs :: "DayRecord list"
  assumes "\<forall>d\<in>set xs. \<exists>r. messageCount d = Num r"
  shows "js_sort (\<lambda>a b. js_sub (messageCount b) (messageCount a)) xs =
         sort_key (\<lambda>d. - the_num (messageCount d)) xs"
proof (rule js_sort_sort_key)
  fix a b
  assume "a \<in> set xs" and "b \<in> set xs"
  with assms obtain r s where "messageCount a = Num r" and "messageCount b = Num s"
    by blast
  then show "(cmp_result (js_sub (messageCount b) (messageCount a)) \<le> 0) =
             (- the_num (messageCount a) \<le> - the_num (messageCount b))"
    by simp
qed

lemma day_sort_stable:
  fixes xs :: "DayRecord list"
  assumes "\<forall>d\<in>set xs. \<exists>r. messageCount d = Num r"
  shows "filter (\<lambda>d. messageCount d = t) (sort_key (\<lambda>d. - the_num (messageCount d)) xs) =
         filter (\<lambda>d. messageCount d = t) xs"
proof -
  let ?s = "sort_key (\<lambda>d. - the_num (messageCount d)) xs"
  have num: "\<exists>r. messageCount d = Num r" if "d \<in> set zs" and "set zs = set xs"
    for d and zs :: "DayRecord list"
    using that assms by blast
  show ?thesis
  proof (cases t)
    case (Num r)
    have eq: "filter (\<lambda>d. messageCount d = t) zs =
              filter (\<lambda>d. - the_num (messageCount d) = - r) zs"
      if "set zs = set xs" for zs :: "DayRecord list"
    proof (rule filter_cong [OF refl])
      fix d assume "d \<in> set zs"
      with that obtain q where "messageCount d = Num q" using num by blast
      then show "(messageCount d = t) = (- the_num (messageCount d) = - r)"
        by (simp add: Num)
    qed
    have "filter (\<lambda>d. messageCount d = t) ?s = filter (\<lambda>d. - the_num (messageCount d) = - r) ?s"
      by (rule eq) simp
    also have "\<dots> = filter (\<lambda>d. - the_num (messageCount d) = - r) xs"
      by (rule sort_key_stable)
    also have "\<dots> = filter (\<lambda>d. messageCount d = t) xs"
      by (rule eq [symmetric]) simp
    finally show ?thesis .
  next
    case Undefined
    have "filter (\<lambda>d. messageCount d = t) zs = []" if "set zs = set xs"
      for zs :: "DayRecord list"
      unfolding filter_empty_conv Undefined using num [OF _ that] by fastforce
    then show ?thesis by simp
  next
    case NaN
    have "filter (\<lambda>d. messageCount d = t) zs = []" if "set zs = set xs"
      for zs :: "DayRecord list"
      unfolding filter_empty_conv NaN using num [OF _ that] by fastforce
    then show ?thesis by simp
  qed
qed

lemma sorted_take_drop:
  assumes "sorted_wrt P s"
  shows "\<forall>x\<in>set (take n s). \<forall>y\<in>set (drop n s). P x y"
proof -
  have "sorted_wrt P (take n s @ drop n s)" using assms by simp
  then show ?thesis unfolding sorted_wrt_append by blast
qed

text \<open>
  For every \<open>dailyActivity\<close>, \<open>topDays\<close> has \<open>min 5 n\<close> elements, \<open>n\<close> the number of
  days. When every record carries a numeric \<open>messageCount\<close>, \<open>topDays\<close> is the first
  five elements of the stable sort of the days descending by \<open>messageCount\<close> (a
  permutation \<open>s\<close> of the days, sorted, in which days with the same count keep their
  order), and every element of \<open>topDays\<close> has a \<open>messageCount\<close> at least that of
  every record left out (the elements of \<open>drop 5 s\<close>).
\<close>

lemma topDays_ranked_when_counted:
  "length (topDays stats) = min 5 (length (daily stats))
   \<and> ((\<forall>d\<in>set (daily stats). \<exists>r. messageCount d = Num r) \<longrightarrow>
        (\<exists>s. topDays stats = take 5 s
           \<and> mset s = mset (daily stats)
           \<and> sorted_wrt (\<lambda>a b. the_num (messageCount b) \<le> the_num (messageCount a)) s
           \<and> (\<forall>t. filter (\<lambda>d. messageCount d = t) s = filter (\<lambda>d. messageCount d = t) (daily stats))
           \<and> mset (topDays stats) + mset (drop 5 s) = mset (daily stats)
           \<and> (\<forall>x\<in>set (topDays stats). \<forall>y\<in>set (drop 5 s).
                 the_num (messageCount y) \<le> the_num (messageCount x))))"
proof (intro conjI impI)
  show "length (topDays stats) = min 5 (length (daily stats))"
    by (simp add: topDays_def length_js_sort min.commute)
next
  assume num: "\<forall>d\<in>set (daily stats). \<exists>r. messageCount d = Num r"
  define s where "s = sort_key (\<lambda>d. - the_num (messageCount d)) (daily stats)"
  have top: "topDays stats = take 5 s"
    by (simp add: topDays_def s_def day_sort_key [OF num])
  have perm: "mset s = mset (daily stats)"
    by (simp add: s_def)
  have "sorted (map (\<lambda>d. - the_num (messageCount d)) s)"
    unfolding s_def by (rule sorted_sort_key)
  then have srt: "sorted_wrt (\<lambda>a b. the_num (messageCount b) \<le> the_num (messageCount a)) s"
    by (simp add: sorted_map)
  have stab: "\<forall>t. filter (\<lambda>d. messageCount d = t) s = filter (\<lambda>d. messageCount d = t) (daily stats)"
    unfolding s_def using day_sort_stable [OF num] by blast
  have "mset (take 5 s) + mset (drop 5 s) = mset s"
    by (simp flip: mset_append)
  then have part: "mset (topDays stats) + mset (drop 5 s) = mset (daily stats)"
    by (simp only: top perm)
  have bound: "\<forall>x\<in>set (topDays stats). \<forall>y\<in>set (drop 5 s).
                 the_num (messageCount y) \<le> the_num (messageCount x)"
    unfolding top using sorted_take_drop [OF srt] by blast
  from top perm srt stab part bound
  show "\<exists>s. topDays stats = take 5 s
           \<and> mset s = mset (daily stats)
           \<and> sorted_wrt (\<lambda>a b. the_num (messageCount b) \<le> the_num (messageCount a)) s
           \<and> (\<forall>t. filter (\<lambda>d. messageCount d = t) s = filter (\<lambda>d. messageCount d = t) (daily stats))
           \<and> mset (topDays stats) + mset (drop 5 s) = mset (daily stats)
           \<and> (\<forall>x\<in>set (topDays stats). \<forall>y\<in>set (drop 5 s).
                 the_num (messageCount y) \<le> the_num (messageCount x))"
    by blast
qed

text \<open>With the zeros written, every snapshot has this ranking.\<close>

lemma daily_with_zero_defaults: "daily (with_zero_defaults stats) = map zero_filled (daily stats)"
  by (cases "stats_dailyActivity stats") (simp_all add: daily_def with_zero_defaults_def)

lemma topDays_zero_filled:
  "length (topDays (with_zero_defaults stats)) = min 5 (length (daily stats))
   \<and> (\<exists>s. topDays (with_zero_defaults stats) = take 5 s
         \<and> mset s = mset (map zero_filled (daily stats))
         \<and> sorted_wrt (\<lambda>a b. the_num (messageCount b) \<le> the_num (messageCount a)) s
         \<and> (\<forall>t. filter (\<lambda>d. messageCount d = t) s =
                 filter (\<lambda>d. messageCount d = t) (map zero_filled (daily stats)))
         \<and> (\<forall>x\<in>set (topDays (with_zero_defaults stats)). \<forall>y\<in>set (drop 5 s).
               the_num (messageCount y) \<le> the_num (messageCount x)))"
proof -
  have num: "\<forall>d\<in>set (daily (with_zero_defaults stats)). \<exists>r. messageCount d = Num r"
    by (simp add: daily_with_zero_defaults zero_filled_def)
  from topDays_ranked_when_counted [of "with_zero_defaults stats"] num show ?thesis
    unfolding daily_with_zero_defaults by (simp only: length_map) blast
qed

text \<open>
  C4 asks that \<open>topDays\<close> is the stable sort of the days descending by
  \<open>messageCount\<close>, cut to five, so that no day left out has more messages than a day
  kept; a count left out of a record is \<open>0\<close> in the specification. The engine compares
  the counts as they are, without the default that the reduce for \<open>toolCallCount\<close>
  applies. On \<open>blank_days\<close>, five records without \<open>messageCount\<close> followed by a day
  with 3 messages, the comparator \<^verbatim>\<open>b.messageCount - a.messageCount\<close> is \<^verbatim>\<open>NaN\<close>, that
  is \<open>0\<close>, for every pair, the stable sort leaves the six days as they are, and the only
  day with messages is left out of \<open>topDays\<close>. With the zeros written that day is
  ranked first.
\<close>

theorem topDays_absent_counts_not_defaulted:
  "map date (topDays blank_days) =
     [''2026-01-01'', ''2026-01-02'', ''2026-01-03'', ''2026-01-04'', ''2026-01-05'']
   \<and> map messageCount (topDays blank_days) =
     [Undefined, Undefined, Undefined, Undefined, Undefined]
   \<and> daily blank_days ! 5 = day ''2026-01-06'' 3
   \<and> messageCount (daily blank_days ! 5) = Num 3
   \<and> daily blank_days ! 5 \<notin> set (topDays blank_days)
   \<and> map date (topDays (with_zero_defaults blank_days)) =
     [''2026-01-06'', ''2026-01-01'', ''2026-01-02'', ''2026-01-03'', ''2026-01-04'']
   \<and> map messageCount (topDays (with_zero_defaults blank_days)) =
     [Num 3, Num 0, Num 0, Num 0, Num 0]"
  by (simp add: topDays_def daily_def blank_days_def empty_snapshot_def js_sort_def
      dated_def day_def with_zero_defaults_def zero_filled_def)

section \<open>The cost estimate\<close>








section \<open>Empty collections\<close>

lemma daily_empty:
  "stats_dailyActivity stats = Some [] \<or> stats_dailyActivity stats = None \<Longrightarrow> daily stats = []"
  by (auto simp: daily_def)

lemma hourCounts_empty:
  "stats_hourCounts stats = Some [] \<or> stats_hourCounts stats = None \<Longrightarrow> hourCounts stats = []"
  by (auto simp: hourCounts_def)

text \<open>
  C8. Empty collections give fixed fallbacks, and the model has no error branch for
  them. For an empty (or absent) \<open>dailyActivity\<close>, \<open>peakDay\<close> is the sentinel with date
  \<open>N/A\<close> and \<open>messageCount\<close> 0, \<open>topDays\<close> is empty and the denominator
  \<open>maxDailyMsg\<close> is 1. For an empty (or absent) \<open>hourCounts\<close>, \<open>maxHourCount\<close> is 1.
  For an empty \<open>modelUsage\<close>, \<open>models\<close> is empty and \<open>totalTokens\<close> and
  \<open>costEstimate\<close> are 0.
\<close>

theorem empty_collections_fallbacks:
  "(stats_dailyActivity stats = Some [] \<or> stats_dailyActivity stats = None \<longrightarrow>
      peakDay stats = sentinel \<and> date (peakDay stats) = ''N/A''
      \<and> messageCount (peakDay stats) = Num 0
      \<and> topDays stats = [] \<and> maxDailyMsg stats = Num 1)
   \<and> (stats_hourCounts stats = Some [] \<or> stats_hourCounts stats = None \<longrightarrow>
        maxHourCount stats = Num 1)
   \<and> (stats_modelUsage stats = [] \<longrightarrow>
        models stats = [] \<and> totalTokens stats = 0 \<and> costEstimate stats = 0)"
proof (intro conjI impI)
  assume "stats_dailyActivity stats = Some [] \<or> stats_dailyActivity stats = None"
  then have d: "daily stats = []" by (rule daily_empty)
  show "peakDay stats = sentinel" by (simp add: peakDay_def d)
  then show "date (peakDay stats) = ''N/A''" and "messageCount (peakDay stats) = Num 0"
    by (simp_all add: sentinel_def)
  show "topDays stats = []" by (simp add: topDays_def d js_sort_def)
  show "maxDailyMsg stats = Num 1" by (simp add: maxDailyMsg_def d Math_max_def)
next
  assume "stats_hourCounts stats = Some [] \<or> stats_hourCounts stats = None"
  then have "hourCounts stats = []" by (rule hourCounts_empty)
  then show "maxHourCount stats = Num 1" by (simp add: maxHourCount_def Math_max_def)
next
  assume e: "stats_modelUsage stats = []"
  then show m: "models stats = []" by (simp add: models_def js_sort_def)
  show "totalTokens stats = 0" by (simp add: totalTokens_def m)
  show "costEstimate stats = 0"
    by (simp add: costEstimate_def totalInput_def totalOutput_def totalCacheRead_def
        totalCacheCreate_def m)
qed

theorem empty_collections_fallbacks_witness:
  "stats_dailyActivity empty_snapshot = Some [] \<and> stats_hourCounts empty_snapshot = Some []
   \<and> stats_modelUsage empty_snapshot = []
   \<and> peakDay empty_snapshot = sentinel \<and> topDays empty_snapshot = []
   \<and> maxDailyMsg empty_snapshot = Num 1 \<and> maxHourCount empty_snapshot = Num 1
   \<and> models empty_snapshot = [] \<and> totalTokens empty_snapshot = 0
   \<and> costEstimate empty_snapshot = 0
   \<and> peakDay (empty_snapshot\<lparr>stats_dailyActivity := None\<rparr>) = sentinel
   \<and> maxHourCount (empty_snapshot\<lparr>stats_hourCounts := None\<rparr>) = Num 1"
proof -
  note t = empty_collections_fallbacks [of empty_snapshot]
  note t1 = empty_collections_fallbacks [of "empty_snapshot\<lparr>stats_dailyActivity := None\<rparr>"]
  note t2 = empty_collections_fallbacks [of "empty_snapshot\<lparr>stats_hourCounts := None\<rparr>"]
  have a: "stats_dailyActivity empty_snapshot = Some []"
    and b: "stats_hourCounts empty_snapshot = Some []"
    and c: "stats_modelUsage empty_snapshot = []"
    by (simp_all add: empty_snapshot_def)
  have a1: "stats_dailyActivity (empty_snapshot\<lparr>stats_dailyActivity := None\<rparr>) = None"
    and b2: "stats_hourCounts (empty_snapshot\<lparr>stats_hourCounts := None\<rparr>) = None"
    by simp_all
  from t a b c t1 a1 t2 b2 show ?thesis by blast
qed

section \<open>Lifetime counters and their fallback\<close>






section \<open>Day records without counts\<close>

text \<open>
  C9 asks that a \<open>messageCount\<close> or \<open>sessionCount\<close> left out of a day record counts
  as 0, so that the metrics are those of the zero-filled snapshot. The engine adds and
  compares the absent values as they are. On \<open>sparse_days\<close>, whose first day carries
  only its date, \<open>totalMessages\<close> and \<open>totalSessions\<close> are \<^verbatim>\<open>NaN\<close> where the
  zero-filled snapshot gives 5 and 1, and \<open>peakDay\<close> stays on the first day where the
  zero-filled snapshot gives the second. Only \<open>totalToolCalls\<close>, which is computed with
  \<^verbatim>\<open>(d.toolCallCount || 0)\<close>, is the same on both.
\<close>

theorem absent_day_counts_not_defaulted:
  "totalMessages sparse_days = NaN
   \<and> totalMessages (with_zero_defaults sparse_days) = Num 5
   \<and> totalSessions sparse_days = NaN
   \<and> totalSessions (with_zero_defaults sparse_days) = Num 1
   \<and> date (peakDay sparse_days) = ''2026-01-01''
   \<and> messageCount (peakDay sparse_days) = Undefined
   \<and> date (peakDay (with_zero_defaults sparse_days)) = ''2026-01-02''
   \<and> totalToolCalls sparse_days = 2
   \<and> totalToolCalls (with_zero_defaults sparse_days) = 2"
  by (simp add: totalMessages_def totalSessions_def totalToolCalls_def peakDay_def
      peak_step_def with_zero_defaults_def zero_filled_def sparse_days_def empty_snapshot_def
      daily_def js_or_def)

section \<open>The safe percentage\<close>

lemma show_nat_small: "n < 10 \<Longrightarrow> show_nat n = [digit_char n]"
  by (simp add: show_nat.simps [of n])

lemma show_nat_large: "\<not> n < 10 \<Longrightarrow> show_nat n = show_nat (n div 10) @ [digit_char (n mod 10)]"
  by (simp add: show_nat.simps [of n])

lemma show_nat_numeral:
  "show_nat (numeral k) =
     (if (numeral k :: nat) < 10 then [digit_char (numeral k)]
      else show_nat (numeral k div 10) @ [digit_char (numeral k mod 10)])"
  by (rule show_nat.simps)

lemma show_nat_0: "show_nat 0 = ''0''"
  by (simp add: show_nat_small digit_char_def)

lemma show_nat_1: "show_nat 1 = ''1''"
  by (simp add: show_nat_small digit_char_def)

lemma show_nat_Suc_0: "show_nat (Suc 0) = ''1''"
  using show_nat_1 by simp

lemmas show_nat_eval = show_nat_numeral show_nat_0 show_nat_1 show_nat_Suc_0 digit_char_def

lemma length_show_nat: "0 < length (show_nat n)"
  by (cases "n < 10") (simp_all add: show_nat_small show_nat_large)

lemma digit_val_digit_char: "d < 10 \<Longrightarrow> digit_val (digit_char d) = d"
proof -
  assume "d < 10"
  then have "d = 0 \<or> d = 1 \<or> d = 2 \<or> d = 3 \<or> d = 4 \<or> d = 5 \<or> d = 6 \<or> d = 7 \<or> d = 8 \<or> d = 9"
    by arith
  then show ?thesis
    by (elim disjE) (simp_all add: digit_char_def digit_val_def)
qed

lemma read_nat_snoc: "read_nat (cs @ [c]) = 10 * read_nat cs + digit_val c"
  by (simp add: read_nat_def)

lemma read_nat_show_nat: "read_nat (show_nat n) = n"
proof (induction n rule: show_nat.induct)
  case (1 n)
  show ?case
  proof (cases "n < 10")
    case True
    then show ?thesis
      by (simp add: show_nat_small read_nat_def digit_val_digit_char)
  next
    case False
    with "1.IH" have "read_nat (show_nat (n div 10)) = n div 10" by simp
    then show ?thesis
      by (simp add: show_nat_large [OF False] read_nat_snoc digit_val_digit_char)
  qed
qed

lemma round_tenth:
  fixes a :: rat
  assumes "0 \<le> a"
  shows "\<bar>of_nat (nat \<lfloor>a * 10 + 1 / 2\<rfloor>) / 10 - a\<bar> \<le> 1 / 20"
proof -
  define z where "z = \<lfloor>a * 10 + 1 / 2\<rfloor>"
  have "0 \<le> a * 10 + 1 / 2" using assms by simp
  then have "0 \<le> z" unfolding z_def by simp
  then have n: "(of_nat (nat z) :: rat) = of_int z" by simp
  have lo: "of_int z \<le> a * 10 + 1 / 2" unfolding z_def by (rule of_int_floor_le)
  have hi: "a * 10 + 1 / 2 < of_int z + 1" unfolding z_def by linarith
  from lo hi have "\<bar>of_int z / 10 - a\<bar> \<le> 1 / 20" by linarith
  then show ?thesis unfolding z_def [symmetric] n .
qed

lemma toFixed_1_small:
  assumes "\<bar>x\<bar> < 10 ^ 21"
  shows "toFixed 1 x =
     (if x < 0 then ''-'' else []) @ show_nat (nat \<lfloor>\<bar>x\<bar> * 10 + 1 / 2\<rfloor> div 10) @ ''.'' @
     [digit_char (nat \<lfloor>\<bar>x\<bar> * 10 + 1 / 2\<rfloor> mod 10)]"
proof -
  define n where "n = nat \<lfloor>\<bar>x\<bar> * 10 + 1 / 2\<rfloor>"
  have small: "\<not> 10 ^ 21 \<le> \<bar>x\<bar>" using assms by simp
  show ?thesis
  proof (cases "n < 10")
    case True
    then show ?thesis
      using small unfolding toFixed_def Let_def
      by (simp add: n_def [symmetric] show_nat_small show_nat_0 [simplified])
  next
    case False
    have "0 < length (show_nat (n div 10))" by (rule length_show_nat)
    then show ?thesis
      using small False unfolding toFixed_def Let_def
      by (simp add: n_def [symmetric] show_nat_large [OF False])
  qed
qed

text \<open>The doubles that the percentage goes through on some inputs.\<close>

lemma fl_quarter: "fl (1 / 4) = 1 / 4"
  using fl_dyadic [of 1 "- 2"] by simp

lemma fl_eighth: "fl (1 / 8) = 1 / 8" "fl (- (1 / 8)) = - (1 / 8)"
  using fl_dyadic [of 1 "- 3"] fl_dyadic [of "- 1" "- 3"] by simp_all

lemma fl_25_halves: "fl (25 / 2) = 25 / 2" "fl (- (25 / 2)) = - (25 / 2)"
  using fl_dyadic [of 25 "- 1"] fl_dyadic [of "- 25" "- 1"] by simp_all

lemma fl_23_80: "fl (23 / 80) = 2589569785738035 / 9007199254740992"
proof -
  have "fl (23 / 80) =
      of_int (round_even ((23 / 80) / 2 powi (max (- 2) (- 1022) - 52))) *
      2 powi (max (- 2) (- 1022) - 52)"
    by (rule fl_eval) simp_all
  also have "\<dots> = 2589569785738035 / 9007199254740992"
    by (simp add: round_even_def Let_def floor_rat_numeral_div)
  finally show ?thesis .
qed

lemma fl_23_80_percent:
  "fl (2589569785738035 / 9007199254740992 * 100) = 8092405580431359 / 281474976710656"
proof -
  have "fl (2589569785738035 / 9007199254740992 * 100) =
      of_int (round_even ((2589569785738035 / 9007199254740992 * 100) /
                          2 powi (max 4 (- 1022) - 52))) *
      2 powi (max 4 (- 1022) - 52)"
    by (rule fl_eval) simp_all
  also have "\<dots> = 8092405580431359 / 281474976710656"
    by (simp add: round_even_def Let_def floor_rat_numeral_div)
  finally show ?thesis .
qed

lemma fl_1e19: "fl 10000000000000000000 = 10000000000000000000"
  using fl_dyadic [of 19073486328125 19] by simp

lemma fl_1e21: "fl 1000000000000000000000 = 1000000000000000000000"
  using fl_dyadic [of 476837158203125 21] by simp

lemma fl_2e21: "fl 2000000000000000000000 = 2000000000000000000000"
  using fl_dyadic [of 476837158203125 22] by simp

text \<open>
  C7, for percentages below \<open>10^21\<close> in absolute value. \<open>pct x 0\<close> is the string
  \<open>0\<close> for every \<open>x\<close>. For a nonzero \<open>w\<close>, with \<open>v\<close> the double that
  \<^verbatim>\<open>(x / w) * 100\<close> evaluates to, \<open>pct x w\<close> is \<open>v\<close> written with exactly one decimal
  place: a minus sign when \<open>v\<close> is negative, the decimal digits of \<open>n div 10\<close>, a
  point and the one digit \<open>n mod 10\<close>, where \<open>n / 10\<close> is the tenth nearest to the
  absolute value of \<open>v\<close> (the digits read back give \<open>n\<close>, and \<open>n / 10\<close> is within
  \<open>1 / 20\<close> of it). In particular \<open>pct 50 200\<close> is \<open>25.0\<close>.
\<close>

theorem pct_safe_percentage:
  "pct x 0 = ''0''
   \<and> (w \<noteq> 0 \<and> \<bar>fl (fl (x / w) * 100)\<bar> < 10 ^ 21 \<longrightarrow>
        (let v = fl (fl (x / w) * 100); n = nat \<lfloor>\<bar>v\<bar> * 10 + 1 / 2\<rfloor>
         in pct x w = (if v < 0 then ''-'' else []) @ show_nat (n div 10) @ ''.'' @
                      [digit_char (n mod 10)]
            \<and> read_nat (show_nat (n div 10)) = n div 10
            \<and> digit_val (digit_char (n mod 10)) = n mod 10
            \<and> \<bar>of_nat n / 10 - \<bar>v\<bar>\<bar> \<le> 1 / 20))
   \<and> pct 50 200 = ''25.0''"
proof (intro conjI impI)
  show "pct x 0 = ''0''" by (simp add: pct_def)
next
  assume h: "w \<noteq> 0 \<and> \<bar>fl (fl (x / w) * 100)\<bar> < 10 ^ 21"
  define v where "v = fl (fl (x / w) * 100)"
  define n where "n = nat \<lfloor>\<bar>v\<bar> * 10 + 1 / 2\<rfloor>"
  from h have small: "\<bar>v\<bar> < 10 ^ 21" by (simp add: v_def)
  have "pct x w = toFixed 1 v" using h by (simp add: pct_def v_def)
  then have a: "pct x w = (if v < 0 then ''-'' else []) @ show_nat (n div 10) @ ''.'' @
                      [digit_char (n mod 10)]"
    by (simp only: toFixed_1_small [OF small] n_def)
  have b: "read_nat (show_nat (n div 10)) = n div 10" by (rule read_nat_show_nat)
  have c: "digit_val (digit_char (n mod 10)) = n mod 10" by (rule digit_val_digit_char) simp
  have d: "\<bar>of_nat n / 10 - \<bar>v\<bar>\<bar> \<le> 1 / 20" unfolding n_def by (rule round_tenth) simp
  from a b c d show "let v = fl (fl (x / w) * 100); n = nat \<lfloor>\<bar>v\<bar> * 10 + 1 / 2\<rfloor>
         in pct x w = (if v < 0 then ''-'' else []) @ show_nat (n div 10) @ ''.'' @
                      [digit_char (n mod 10)]
            \<and> read_nat (show_nat (n div 10)) = n div 10
            \<and> digit_val (digit_char (n mod 10)) = n mod 10
            \<and> \<bar>of_nat n / 10 - \<bar>v\<bar>\<bar> \<le> 1 / 20"
    unfolding Let_def v_def [symmetric] n_def [symmetric] by blast
next
  have "\<bar>25 :: rat\<bar> < 10 ^ 21" by simp
  from toFixed_1_small [OF this] have "toFixed 1 25 = ''25.0''"
    by (simp add: floor_rat_numeral_div show_nat_eval)
  then show "pct 50 200 = ''25.0''" by (simp add: pct_def fl_quarter fl_small)
qed

text \<open>
  The witness takes \<open>23 / 80\<close>, whose percentage \<open>28.75\<close> is the double
  \<open>28.749999999999996...\<close> in the code and is written \<open>28.7\<close>, and \<open>- 1 / 8\<close>.
\<close>

theorem pct_safe_percentage_witness:
  "(80::rat) \<noteq> 0 \<and> \<bar>fl (fl (23 / 80) * 100)\<bar> < 10 ^ 21 \<and> pct 23 80 = ''28.7''
   \<and> (8::rat) \<noteq> 0 \<and> \<bar>fl (fl (- 1 / 8) * 100)\<bar> < 10 ^ 21 \<and> pct (- 1) 8 = ''-12.5''
   \<and> pct 7 0 = ''0'' \<and> pct 0 0 = ''0''"
proof -
  have v1: "fl (fl (23 / 80) * 100) = 8092405580431359 / 281474976710656"
    by (simp only: fl_23_80 fl_23_80_percent)
  have v2: "fl (fl (- 1 / 8) * 100) = - (25 / 2)"
    by (simp add: fl_eighth fl_25_halves)
  have h1: "(80::rat) \<noteq> 0 \<and> \<bar>fl (fl (23 / 80) * 100)\<bar> < 10 ^ 21"
    unfolding v1 by simp
  have h2: "(8::rat) \<noteq> 0 \<and> \<bar>fl (fl (- 1 / 8) * 100)\<bar> < 10 ^ 21"
    unfolding v2 by simp
  from pct_safe_percentage [of 23 80] h1 have "pct 23 80 = ''28.7''"
    unfolding v1 by (simp add: Let_def floor_rat_numeral_div show_nat_eval)
  moreover from pct_safe_percentage [of "- 1" 8] h2 have "pct (- 1) 8 = ''-12.5''"
    unfolding v2 by (simp add: Let_def floor_rat_numeral_div show_nat_eval)
  moreover from pct_safe_percentage [of 7 1] have "pct 7 0 = ''0''" by blast
  moreover from pct_safe_percentage [of 0 1] have "pct 0 0 = ''0''" by blast
  ultimately show ?thesis using h1 h2 by blast
qed

text \<open>
  C7 as stated, for every part and whole, fails from \<open>10^21\<close> on, where
  \<^verbatim>\<open>toFixed\<close> returns the exponent notation of \<^verbatim>\<open>toString\<close>: \<open>pct\<close> of \<open>10^19\<close> and
  \<open>1\<close> is \<^verbatim>\<open>1e+21\<close>, a string without a decimal place.
\<close>

theorem pct_exponent_notation_counterexample:
  "pct (10 ^ 19) 1 = ''1e+21'' \<and> CHR ''.'' \<notin> set (pct (10 ^ 19) 1)"
proof -
  have v: "fl (fl (10 ^ 19 / 1) * 100) = 1000000000000000000000"
    by (simp add: fl_1e19 fl_1e21)
  have ds: "show_nat 1000000000000000000000 = ''1000000000000000000000''"
    by (simp add: show_nat_eval)
  have n0: "length (show_nat 1000000000000000000000) - 1 = Suc 20"
    by (simp add: ds)
  have srch: "digits_search 1000000000000000000000 (Suc 20) = (1, Suc 20)"
    by (subst digits_search.simps(2)) (simp add: Let_def fl_1e21 fl_2e21)
  have f: "nat \<lfloor>1000000000000000000000 :: rat\<rfloor> = 1000000000000000000000"
    by simp
  have ts: "toString_large 1000000000000000000000 = ''1e+21''"
    unfolding toString_large_def f Let_def n0 srch
    by (simp add: show_nat_eval)
  have "pct (10 ^ 19) 1 = ''1e+21''"
    unfolding pct_def v by (simp add: toFixed_def Let_def ts)
  then show ?thesis by simp
qed

end
